theory Spec2Isabelle
  imports Main "HOL-Library.Sublist"
begin

section \<open>The template renderer of the WasmWiz mock server\<close>

text \<open>
  This theory embeds \<^verbatim>\<open>WasmWizHandler.render_template\<close> of
  \<^verbatim>\<open>wasmwiz/mock_server.py\<close>, together with the two lookup functions
  \<^verbatim>\<open>get_page_title\<close> and \<^verbatim>\<open>get_active_page\<close>.

  A Python string is a \<^typ>\<open>string\<close>; one \<^typ>\<open>char\<close> stands for one code point
  below 256. The context dictionary is an association list in insertion order, which is
  the order in which Python iterates over a dictionary. The template directory is a
  function from file names to file contents; \<open>None\<close> means that
  \<^verbatim>\<open>os.path.exists\<close> is false for that name.

  The four regular expressions of the function are modelled by matchers that try the
  start positions from left to right and follow the backtracking order of Python's
  \<^verbatim>\<open>re\<close> module at each position.
\<close>

subsection \<open>Errors\<close>

text \<open>
  The only exception that the body of \<^verbatim>\<open>render_template\<close> can raise on strings is
  the one \<^verbatim>\<open>re.sub\<close> raises for a replacement string with an invalid backslash
  escape or group reference (\<^verbatim>\<open>re.error\<close>, or \<^verbatim>\<open>IndexError\<close> for an unknown group
  name). The caller catches both with the same handler.
\<close>

datatype error = BadReplacement

subsection \<open>String primitives\<close>

definition quote :: char where
  "quote = CHR 0x22"

definition backslash :: char where
  "backslash = CHR 0x5C"

text \<open>\<^verbatim>\<open>pat in s\<close>: \<open>pat\<close> occurs in \<open>s\<close> as a contiguous substring.\<close>

fun contains :: "string \<Rightarrow> string \<Rightarrow> bool" where
  "contains pat [] = (pat = [])"
| "contains pat (c # s) = (prefix pat (c # s) \<or> contains pat s)"

text \<open>Matching a literal at the current position; the result is the text after it.\<close>

fun strip_prefix :: "string \<Rightarrow> string \<Rightarrow> string option" where
  "strip_prefix [] s = Some s"
| "strip_prefix (p # ps) [] = None"
| "strip_prefix (p # ps) (c # s) = (if p = c then strip_prefix ps s else None)"

text \<open>
  \<^verbatim>\<open>str.strip()\<close>: removes leading and trailing white space. The code points below
  256 for which \<^verbatim>\<open>str.isspace\<close> holds are 9 to 13, 28 to 32, 133 and 160.
\<close>

definition is_space :: "char \<Rightarrow> bool" where
  "is_space c = ((of_char c :: nat) \<in> {9, 10, 11, 12, 13, 28, 29, 30, 31, 32, 133, 160})"

definition strip :: "string \<Rightarrow> string" where
  "strip s = rev (dropWhile is_space (rev (dropWhile is_space s)))"

text \<open>
  \<^verbatim>\<open>s.replace(old, new)\<close>: every occurrence of \<open>old\<close> found by one scan from the left,
  occurrences not overlapping, is replaced. For an empty \<open>old\<close> Python inserts \<open>new\<close>
  before every character and at the end.
\<close>

function str_replace :: "string \<Rightarrow> string \<Rightarrow> string \<Rightarrow> string" where
  "str_replace old new s =
     (if old = [] then new @ concat (map (\<lambda>c. c # new) s)
      else (case strip_prefix old s of
              Some r \<Rightarrow> new @ str_replace old new r
            | None \<Rightarrow> (case s of [] \<Rightarrow> [] | c # s' \<Rightarrow> c # str_replace old new s')))"
  by pat_completeness auto

lemma strip_prefix_Some_iff: "strip_prefix p s = Some r \<longleftrightarrow> s = p @ r"
  by (induction p s rule: strip_prefix.induct) auto

lemma strip_prefix_append [simp]: "strip_prefix p (p @ r) = Some r"
  by (simp add: strip_prefix_Some_iff)

lemma strip_prefix_None_iff: "strip_prefix p s = None \<longleftrightarrow> \<not> prefix p s"
proof (cases "strip_prefix p s")
  case None
  have "\<not> prefix p s"
  proof
    assume "prefix p s"
    then obtain r where "s = p @ r" by (auto simp: prefix_def)
    with None show False by simp
  qed
  with None show ?thesis by simp
next
  case (Some r)
  then show ?thesis by (simp add: strip_prefix_Some_iff)
qed

termination str_replace
  by (relation "measure (\<lambda>(old, new, s). length s)")
     (auto simp: strip_prefix_Some_iff)

declare str_replace.simps [simp del]

subsection \<open>Block markers and the block regular expressions\<close>

text \<open>
  The patterns \<^verbatim>\<open>{% block content %}(.*?){% endblock %}\<close> and
  \<^verbatim>\<open>{% block title %}(.*?){% endblock %}\<close>, compiled with \<^verbatim>\<open>re.DOTALL\<close>. None of
  their characters is special, apart from the lazy group.
\<close>

definition block_open :: "string \<Rightarrow> string" where
  "block_open name = ''{% block '' @ name @ '' %}''"

definition block_close :: string where
  "block_close = ''{% endblock %}''"

text \<open>
  The lazy \<^verbatim>\<open>(.*?)\<close> followed by a literal: the literal is tried at the current
  position first, and one more character (any character, by \<^verbatim>\<open>re.DOTALL\<close>) is
  consumed only when it does not match there. The result is the group and the text
  after the literal.
\<close>

fun until_lit :: "string \<Rightarrow> string \<Rightarrow> (string \<times> string) option" where
  "until_lit lit [] = (case strip_prefix lit [] of Some r \<Rightarrow> Some ([], r) | None \<Rightarrow> None)"
| "until_lit lit (c # s) =
     (case strip_prefix lit (c # s) of
        Some r \<Rightarrow> Some ([], r)
      | None \<Rightarrow> map_option (\<lambda>(g, r). (c # g, r)) (until_lit lit s))"

text \<open>A match of a block pattern that starts at the current position.\<close>

definition match_block :: "string \<Rightarrow> string \<Rightarrow> (string \<times> string) option" where
  "match_block name s =
     (case strip_prefix (block_open name) s of
        None \<Rightarrow> None
      | Some r \<Rightarrow> until_lit block_close r)"

text \<open>\<^verbatim>\<open>re.search\<close>: the leftmost match; the result is \<^verbatim>\<open>group(1)\<close>.\<close>

fun search_block :: "string \<Rightarrow> string \<Rightarrow> string option" where
  "search_block name [] = map_option fst (match_block name [])"
| "search_block name (c # s) =
     (case match_block name (c # s) of
        Some (g, r) \<Rightarrow> Some g
      | None \<Rightarrow> search_block name s)"

subsection \<open>The replacement string of \<^verbatim>\<open>re.sub\<close>\<close>

text \<open>
  A replacement that is a string is parsed by \<^verbatim>\<open>re\<close> before any match is looked for
  (CPython 3.12): a backslash starts an escape. The block patterns have no group of
  their own, so the only group reference that is accepted is \<^verbatim>\<open>\g<0>\<close>, the whole match
  (written with any number of zeros). \<^verbatim>\<open>\0\<close> with up to two more octal digits, and
  three octal digits, give the character of that code; the escapes \<^verbatim>\<open>\a \b \f \n \r \t \v \\\<close>
  give their control character; a backslash before any other ASCII letter, before a
  digit that is not part of an octal code, or at the end of the string is an error; a
  backslash before any other character stays, with that character.
\<close>

datatype piece = Lit char | Whole

definition is_digit :: "char \<Rightarrow> bool" where
  "is_digit c = (48 \<le> (of_char c :: nat) \<and> (of_char c :: nat) \<le> 57)"

definition is_octdigit :: "char \<Rightarrow> bool" where
  "is_octdigit c = (48 \<le> (of_char c :: nat) \<and> (of_char c :: nat) \<le> 55)"

definition is_ascii_letter :: "char \<Rightarrow> bool" where
  "is_ascii_letter c =
     ((65 \<le> (of_char c :: nat) \<and> (of_char c :: nat) \<le> 90) \<or>
      (97 \<le> (of_char c :: nat) \<and> (of_char c :: nat) \<le> 122))"

definition digit_val :: "char \<Rightarrow> nat" where
  "digit_val c = of_char c - 48"

fun octal :: "nat \<Rightarrow> string \<Rightarrow> nat" where
  "octal acc [] = acc"
| "octal acc (d # ds) = octal (8 * acc + digit_val d) ds"

definition escape_char :: "char \<Rightarrow> char option" where
  "escape_char d =
     (if d = CHR ''a'' then Some (char_of (7 :: nat))
      else if d = CHR ''b'' then Some (char_of (8 :: nat))
      else if d = CHR ''f'' then Some (char_of (12 :: nat))
      else if d = CHR ''n'' then Some (char_of (10 :: nat))
      else if d = CHR ''r'' then Some (char_of (13 :: nat))
      else if d = CHR ''t'' then Some (char_of (9 :: nat))
      else if d = CHR ''v'' then Some (char_of (11 :: nat))
      else if d = backslash then Some backslash
      else None)"

definition cons_piece :: "piece list \<Rightarrow> error + piece list \<Rightarrow> error + piece list" where
  "cons_piece ps r = (case r of Inl e \<Rightarrow> Inl e | Inr qs \<Rightarrow> Inr (ps @ qs))"

function parse_template :: "string \<Rightarrow> error + piece list" where
  "parse_template [] = Inr []"
| "parse_template (c # s) =
     (if c \<noteq> backslash then cons_piece [Lit c] (parse_template s)
      else (case s of
              [] \<Rightarrow> Inl BadReplacement
            | d # t \<Rightarrow>
                if d = CHR ''g'' then
                  (case t of
                     [] \<Rightarrow> Inl BadReplacement
                   | l # u \<Rightarrow>
                       if l \<noteq> CHR ''<'' then Inl BadReplacement
                       else if length (takeWhile (\<lambda>x. x \<noteq> CHR ''>'') u) = length u
                         then Inl BadReplacement
                       else if takeWhile (\<lambda>x. x \<noteq> CHR ''>'') u = [] then Inl BadReplacement
                       else if \<not> list_all (\<lambda>x. x = CHR ''0'') (takeWhile (\<lambda>x. x \<noteq> CHR ''>'') u)
                         then Inl BadReplacement
                       else cons_piece [Whole]
                              (parse_template (drop (Suc (length (takeWhile (\<lambda>x. x \<noteq> CHR ''>'') u))) u)))
                else if d = CHR ''0'' then
                  cons_piece [Lit (char_of (octal 0 (takeWhile is_octdigit (take 2 t)) mod 256))]
                    (parse_template (drop (length (takeWhile is_octdigit (take 2 t))) t))
                else if is_digit d then
                  (case t of
                     d2 # d3 # u \<Rightarrow>
                       if is_octdigit d \<and> is_octdigit d2 \<and> is_octdigit d3 then
                         (if octal 0 [d, d2, d3] > 255 then Inl BadReplacement
                          else cons_piece [Lit (char_of (octal 0 [d, d2, d3]))] (parse_template u))
                       else Inl BadReplacement
                   | _ \<Rightarrow> Inl BadReplacement)
                else (case escape_char d of
                        Some x \<Rightarrow> cons_piece [Lit x] (parse_template t)
                      | None \<Rightarrow>
                          if is_ascii_letter d then Inl BadReplacement
                          else cons_piece [Lit c, Lit d] (parse_template t))))"
  by pat_completeness auto
termination
  by (relation "measure length") auto

declare parse_template.simps(2) [simp del]

text \<open>The text a parsed replacement stands for at a match \<open>m\<close>.\<close>

fun expand :: "piece list \<Rightarrow> string \<Rightarrow> string" where
  "expand [] m = []"
| "expand (Lit c # ps) m = c # expand ps m"
| "expand (Whole # ps) m = m @ expand ps m"

subsection \<open>\<^verbatim>\<open>re.sub\<close> on a block pattern\<close>

text \<open>
  Every match found by one scan from the left is replaced (\<^verbatim>\<open>count\<close> is not given);
  the scan goes on after the end of a match. A match is never empty.
\<close>

lemma until_lit_sound: "until_lit lit s = Some (g, r) \<Longrightarrow> s = g @ lit @ r"
proof (induction s arbitrary: g)
  case Nil
  then show ?case by (auto split: option.splits simp: strip_prefix_Some_iff)
next
  case (Cons c s)
  then show ?case by (auto split: option.splits simp: strip_prefix_Some_iff)
qed

lemma match_block_sound:
  "match_block name s = Some (g, r) \<Longrightarrow> s = block_open name @ g @ block_close @ r"
  by (auto simp: match_block_def strip_prefix_Some_iff split: option.splits
           dest: until_lit_sound)

function sub_block :: "string \<Rightarrow> piece list \<Rightarrow> string \<Rightarrow> string" where
  "sub_block name tpl s =
     (case match_block name s of
        Some (g, r) \<Rightarrow> expand tpl (block_open name @ g @ block_close) @ sub_block name tpl r
      | None \<Rightarrow> (case s of [] \<Rightarrow> [] | c # s' \<Rightarrow> c # sub_block name tpl s'))"
  by pat_completeness auto
termination
  by (relation "measure (\<lambda>(name, tpl, s). length s)")
     (auto dest!: match_block_sound simp: block_open_def)

declare sub_block.simps [simp del]

definition re_sub_block :: "string \<Rightarrow> string \<Rightarrow> string \<Rightarrow> error + string" where
  "re_sub_block name repl s =
     (case parse_template repl of
        Inl e \<Rightarrow> Inl e
      | Inr tpl \<Rightarrow> Inr (sub_block name tpl s))"

subsection \<open>The context dictionary and the context builder\<close>

type_synonym context_dict = "(string \<times> string) list"

text \<open>\<^verbatim>\<open>context.get(key, default)\<close>.\<close>

definition ctx_get :: "context_dict \<Rightarrow> string \<Rightarrow> string \<Rightarrow> string" where
  "ctx_get context key dflt = (case map_of context key of Some v \<Rightarrow> v | None \<Rightarrow> dflt)"

definition titles :: context_dict where
  "titles =
     [(''/'', ''Execute WebAssembly - WasmWiz''),
      (''/api-keys'', ''API Key Management - WasmWiz''),
      (''/docs'', ''API Documentation - WasmWiz''),
      (''/examples'', ''WebAssembly Examples - WasmWiz''),
      (''/pricing'', ''Pricing Plans - WasmWiz''),
      (''/faq'', ''Frequently Asked Questions - WasmWiz''),
      (''/support'', ''Get Support - WasmWiz''),
      (''/security'', ''Security & Compliance - WasmWiz''),
      (''/terms'', ''Terms of Service - WasmWiz''),
      (''/privacy'', ''Privacy Policy - WasmWiz'')]"

definition get_page_title :: "string \<Rightarrow> string" where
  "get_page_title route = ctx_get titles route ''WasmWiz - WebAssembly Execution API''"

definition active_pages :: context_dict where
  "active_pages =
     [(''/'', ''index''),
      (''/api-keys'', ''api-keys''),
      (''/docs'', ''docs''),
      (''/examples'', ''examples''),
      (''/pricing'', ''pricing''),
      (''/faq'', ''faq''),
      (''/support'', ''support''),
      (''/security'', ''security''),
      (''/terms'', ''terms''),
      (''/privacy'', ''privacy'')]"

definition get_active_page :: "string \<Rightarrow> string" where
  "get_active_page route = ctx_get active_pages route []"

text \<open>The context that \<^verbatim>\<open>serve_template\<close> builds for a route.\<close>

definition build_context :: "string \<Rightarrow> context_dict" where
  "build_context route =
     [(''title'', get_page_title route),
      (''csrf_token'', ''mock-csrf-token-123''),
      (''active_page'', get_active_page route)]"

subsection \<open>Inheritance (lines 110 to 138)\<close>

definition extends_marker :: string where
  \<open>extends_marker = ''{% extends "base.html" %}''\<close>

datatype composer_state = Standalone | Inheriting

text \<open>The test of line 111 selects the state.\<close>

definition composer_state_of :: "string \<Rightarrow> composer_state" where
  "composer_state_of content = (if contains extends_marker content then Inheriting else Standalone)"

text \<open>Lines 119 to 125: the content block of the child, spliced into the base.\<close>

definition splice_content :: "string \<Rightarrow> string \<Rightarrow> error + string" where
  "splice_content content base_content =
     (case search_block ''content'' content of
        Some g \<Rightarrow> re_sub_block ''content'' (strip g) base_content
      | None \<Rightarrow> Inr base_content)"

text \<open>Lines 128 to 134: the title block of the child, or the title of the context.\<close>

definition splice_title :: "string \<Rightarrow> context_dict \<Rightarrow> string \<Rightarrow> error + string" where
  "splice_title content context rendered =
     (case search_block ''title'' content of
        Some g \<Rightarrow> re_sub_block ''title'' (strip g) rendered
      | None \<Rightarrow> re_sub_block ''title'' (ctx_get context ''title'' ''WasmWiz'') rendered)"

definition resolve_inheritance :: "(string \<Rightarrow> string option) \<Rightarrow> string \<Rightarrow> context_dict \<Rightarrow> error + string" where
  "resolve_inheritance templates content context =
     (case composer_state_of content of
        Inheriting \<Rightarrow>
          (case templates ''base.html'' of
             Some base_content \<Rightarrow>
               (case splice_content content base_content of
                  Inl e \<Rightarrow> Inl e
                | Inr rendered \<Rightarrow> splice_title content context rendered)
           | None \<Rightarrow> Inr content)
      | Standalone \<Rightarrow> Inr content)"

subsection \<open>Variable substitution (lines 140 to 142)\<close>

definition placeholder :: "string \<Rightarrow> string" where
  "placeholder key = ''{{ '' @ key @ '' }}''"

fun substitute_variables :: "context_dict \<Rightarrow> string \<Rightarrow> string" where
  "substitute_variables [] rendered = rendered"
| "substitute_variables ((key, v) # context) rendered =
     substitute_variables context (str_replace (placeholder key) v rendered)"

subsection \<open>The conditional class (lines 144 to 150)\<close>

text \<open>
  The pattern is
  \<^verbatim>\<open>class="([^"]*?){% if active_page == "([^"]+)" %}active{% endif %}([^"]*?)"\<close>.
  Each of the three groups is matched by a function of its own, which also matches the
  rest of the pattern after the group, so that a failure further right comes back to
  the group as it does in a backtracking matcher: a lazy group tries the rest first and
  takes one more character only when the rest fails; the greedy group takes characters
  first and tries the rest when it can take no more.
\<close>

definition class_open :: string where
  \<open>class_open = ''class="''\<close>

definition if_open :: string where
  \<open>if_open = ''{% if active_page == "''\<close>

definition if_close :: string where
  \<open>if_close = ''" %}active{% endif %}''\<close>

text \<open>\<^verbatim>\<open>([^"]*?)"\<close>, the end of the pattern: the third group and the text after the match.\<close>

fun match_g3 :: "string \<Rightarrow> (string \<times> string) option" where
  "match_g3 [] = None"
| "match_g3 (c # s) =
     (if c = quote then Some ([], s)
      else map_option (\<lambda>(g3, r). (c # g3, r)) (match_g3 s))"

definition after_g2 :: "string \<Rightarrow> (string \<times> string) option" where
  "after_g2 s = (case strip_prefix if_close s of None \<Rightarrow> None | Some r \<Rightarrow> match_g3 r)"

text \<open>\<^verbatim>\<open>([^"]+)\<close> and what follows it.\<close>

fun match_g2 :: "string \<Rightarrow> (string \<times> string \<times> string) option" where
  "match_g2 [] = None"
| "match_g2 (c # s) =
     (if c = quote then None
      else (case match_g2 s of
              Some (g2, g3, r) \<Rightarrow> Some (c # g2, g3, r)
            | None \<Rightarrow> map_option (\<lambda>(g3, r). ([c], g3, r)) (after_g2 s)))"

definition after_g1 :: "string \<Rightarrow> (string \<times> string \<times> string) option" where
  "after_g1 s = (case strip_prefix if_open s of None \<Rightarrow> None | Some r \<Rightarrow> match_g2 r)"

text \<open>\<^verbatim>\<open>([^"]*?)\<close> and what follows it.\<close>

fun match_g1 :: "string \<Rightarrow> (string \<times> string \<times> string \<times> string) option" where
  "match_g1 [] = map_option (\<lambda>(g2, g3, r). ([], g2, g3, r)) (after_g1 [])"
| "match_g1 (c # s) =
     (case after_g1 (c # s) of
        Some (g2, g3, r) \<Rightarrow> Some ([], g2, g3, r)
      | None \<Rightarrow>
          if c = quote then None
          else map_option (\<lambda>(g1, g2, g3, r). (c # g1, g2, g3, r)) (match_g1 s))"

text \<open>A match that starts at the current position: the three groups and the rest.\<close>

definition match_active :: "string \<Rightarrow> (string \<times> string \<times> string \<times> string) option" where
  "match_active s = (case strip_prefix class_open s of None \<Rightarrow> None | Some r \<Rightarrow> match_g1 r)"

text \<open>The replacement function of line 148.\<close>

definition active_repl :: "string \<Rightarrow> string \<Rightarrow> string \<Rightarrow> string \<Rightarrow> string" where
  "active_repl active_page g1 g2 g3 =
     class_open @ g1 @ (if active_page = g2 then ''active'' else []) @ g3 @ [quote]"

lemma match_g3_sound: "match_g3 s = Some (g3, r) \<Longrightarrow> s = g3 @ quote # r"
  by (induction s arbitrary: g3) (auto split: if_splits)

lemma after_g2_sound: "after_g2 s = Some (g3, r) \<Longrightarrow> s = if_close @ g3 @ quote # r"
  by (auto simp: after_g2_def strip_prefix_Some_iff split: option.splits dest: match_g3_sound)

lemma match_g2_sound:
  "match_g2 s = Some (g2, g3, r) \<Longrightarrow> s = g2 @ if_close @ g3 @ quote # r"
  by (induction s arbitrary: g2)
     (auto split: if_splits option.splits dest: after_g2_sound)

lemma after_g1_sound:
  "after_g1 s = Some (g2, g3, r) \<Longrightarrow> s = if_open @ g2 @ if_close @ g3 @ quote # r"
  by (auto simp: after_g1_def strip_prefix_Some_iff split: option.splits dest: match_g2_sound)

lemma match_g1_sound:
  "match_g1 s = Some (g1, g2, g3, r) \<Longrightarrow> s = g1 @ if_open @ g2 @ if_close @ g3 @ quote # r"
  by (induction s arbitrary: g1)
     (auto split: if_splits option.splits dest: after_g1_sound)

lemma match_active_sound:
  "match_active s = Some (g1, g2, g3, r) \<Longrightarrow>
     s = class_open @ g1 @ if_open @ g2 @ if_close @ g3 @ quote # r"
  by (auto simp: match_active_def strip_prefix_Some_iff split: option.splits
           dest: match_g1_sound)

text \<open>\<^verbatim>\<open>re.sub\<close> with the replacement function: every match of one scan from the left.\<close>

function resolve_active_class :: "string \<Rightarrow> string \<Rightarrow> string" where
  "resolve_active_class active_page s =
     (case match_active s of
        Some (g1, g2, g3, r) \<Rightarrow>
          active_repl active_page g1 g2 g3 @ resolve_active_class active_page r
      | None \<Rightarrow> (case s of [] \<Rightarrow> [] | c # s' \<Rightarrow> c # resolve_active_class active_page s'))"
  by pat_completeness auto
termination
  by (relation "measure (\<lambda>(active_page, s). length s)")
     (auto dest!: match_active_sound)

declare resolve_active_class.simps [simp del]

subsection \<open>\<^verbatim>\<open>render_template\<close>\<close>

definition render_template :: "(string \<Rightarrow> string option) \<Rightarrow> string \<Rightarrow> context_dict \<Rightarrow> error + string" where
  "render_template templates content context =
     (case resolve_inheritance templates content context of
        Inl e \<Rightarrow> Inl e
      | Inr rendered \<Rightarrow>
          Inr (resolve_active_class (ctx_get context ''active_page'' [])
                 (substitute_variables context rendered)))"

subsection \<open>Example documents\<close>

definition doc_c1 :: string where
  \<open>doc_c1 = ''{% extends "base.html" %}<p>{{ title }}</p>''\<close>

definition base_c2 :: string where
  \<open>base_c2 = ''<body>{% block content %}DEFAULT{% endblock %}</body>''\<close>

definition base_c2_spec :: string where
  \<open>base_c2_spec = ''<body>{%block content%}DEFAULT{%endblock%}</body>''\<close>

definition child_c2 :: string where
  \<open>child_c2 = ''{% extends "base.html" %}<p>no block</p>''\<close>

definition child_c3 :: string where
  \<open>child_c3 = ''{% extends "base.html" %}{% block content %}<p>never closed</p>''\<close>





definition child_c9 :: string where
  \<open>child_c9 = ''<pre>usage: {% extends "base.html" %}</pre>{% block content %}x{% endblock %}''\<close>



definition doc_c7 :: string where
  \<open>doc_c7 = ''<a class="a {% if active_page == "x" %}active{% endif %} {% if active_page == "y" %}active{% endif %}">''\<close>

definition doc_c7_empty :: string where
  \<open>doc_c7_empty = ''<a class="nav {% if active_page == "" %}active{% endif %}">''\<close>

definition doc_c7_open :: string where
  \<open>doc_c7_open = ''<a class="{% if active_page == "a" %}active{% endif %} <b class="{% if active_page == "b" %}active{% endif %}">''\<close>

definition doc_c7w :: string where
  \<open>doc_c7w = ''<h1>{{ title }}</h1><a href="/docs" class="nav {% if active_page == "docs" %}active{% endif %} x">Docs</a><a class="{% if active_page == "examples" %}active{% endif %}">Examples</a>''\<close>

definition doc_c3 :: string where
  \<open>doc_c3 = ''{% block content %}A{% block title %}T{% endblock %}''\<close>

subsection \<open>Documents made of blocks\<close>




subsection \<open>Documents with conditional class attributes\<close>

text \<open>
  The documents the conditional class is stated for: each item is a stretch of text
  followed by one class attribute that holds the conditional directive, with the class
  text \<open>g1\<close> before the directive, the target \<open>g2\<close> and the class text \<open>g3\<close>
  after it; \<open>tail\<close> is the text after the last attribute. The second function is the
  same document with every directive resolved against one value of \<open>active_page\<close>.
  An item is in order when the class texts and the target hold no double quote, the
  target is not empty, and its text opens no directive: nowhere in the text stands
  \<^verbatim>\<open>class="\<close> followed, with no double quote in between, by the opening of a
  directive (\<open>opens_directive\<close>).
\<close>

fun open_after_class :: "string \<Rightarrow> bool" where
  "open_after_class [] = False"
| "open_after_class (c # s) = (prefix if_open (c # s) \<or> (c \<noteq> quote \<and> open_after_class s))"

fun opens_directive :: "string \<Rightarrow> bool" where
  "opens_directive [] = False"
| "opens_directive (c # s) =
     ((case strip_prefix class_open (c # s) of
         None \<Rightarrow> False
       | Some r \<Rightarrow> open_after_class r) \<or>
      opens_directive s)"

fun fragment_doc :: "(string \<times> string \<times> string \<times> string) list \<Rightarrow> string \<Rightarrow> string" where
  "fragment_doc [] tail = tail"
| "fragment_doc ((t, g1, g2, g3) # items) tail =
     t @ class_open @ g1 @ if_open @ g2 @ if_close @ g3 @ quote # fragment_doc items tail"

fun fragment_doc_resolved :: "string \<Rightarrow> (string \<times> string \<times> string \<times> string) list \<Rightarrow> string \<Rightarrow> string" where
  "fragment_doc_resolved active_page [] tail = tail"
| "fragment_doc_resolved active_page ((t, g1, g2, g3) # items) tail =
     t @ class_open @ g1 @ (if active_page = g2 then ''active'' else []) @ g3 @
       quote # fragment_doc_resolved active_page items tail"

definition fragment_ok :: "string \<times> string \<times> string \<times> string \<Rightarrow> bool" where
  "fragment_ok item =
     (case item of (t, g1, g2, g3) \<Rightarrow>
        \<not> opens_directive t \<and>
        quote \<notin> set g1 \<and> g2 \<noteq> [] \<and> quote \<notin> set g2 \<and> quote \<notin> set g3)"

definition doc_c6 :: string where
  \<open>doc_c6 = ''<a class="nav {% if active_page == "docs" %}active{% endif %}">Docs</a>''\<close>

subsection \<open>Documents made of text and placeholders\<close>

text \<open>
  The documents the simultaneous substitution is stated for: a list of segments, each
  the placeholder of a key without braces or a stretch of text in which every opening
  brace is followed by a character that is not an opening brace. Such text can hold
  directives like \<^verbatim>\<open>{% block title %}\<close> and style rules, but no two opening braces
  in a row and no opening brace as its last character. \<open>simultaneous\<close> replaces each
  placeholder on its own by the value of its key, and leaves the placeholder of a key
  that the context does not hold. \<open>subst1\<close> is the effect of the replacement for one
  key on one segment. The values of a context that is in order obey the same rule as text.
\<close>

fun braces_apart :: "string \<Rightarrow> bool" where
  "braces_apart [] = True"
| "braces_apart [c] = (c \<noteq> CHR ''{'')"
| "braces_apart (c # d # s) = ((c \<noteq> CHR ''{'' \<or> d \<noteq> CHR ''{'') \<and> braces_apart (d # s))"

definition brace_free :: "string \<Rightarrow> bool" where
  "brace_free s = (CHR ''{'' \<notin> set s \<and> CHR ''}'' \<notin> set s)"

datatype segment = Text string | Var string

fun segment_source :: "segment \<Rightarrow> string" where
  "segment_source (Text t) = t"
| "segment_source (Var k) = placeholder k"

fun segment_ok :: "segment \<Rightarrow> bool" where
  "segment_ok (Text t) = braces_apart t"
| "segment_ok (Var k) = brace_free k"

fun simultaneous :: "context_dict \<Rightarrow> segment \<Rightarrow> string" where
  "simultaneous context (Text t) = t"
| "simultaneous context (Var k) =
     (case map_of context k of Some v \<Rightarrow> v | None \<Rightarrow> placeholder k)"

definition context_ok :: "context_dict \<Rightarrow> bool" where
  "context_ok context = list_all (\<lambda>(k, v). brace_free k \<and> braces_apart v) context"


fun subst1 :: "string \<Rightarrow> string \<Rightarrow> segment \<Rightarrow> segment" where
  "subst1 k2 v (Text t) = Text t"
| "subst1 k2 v (Var k) = (if k = k2 then Text v else Var k)"


section \<open>Properties of the matchers\<close>

subsection \<open>Occurrences of a literal\<close>

lemma contains_iff: "contains pat s \<longleftrightarrow> (\<exists>pre post. s = pre @ pat @ post)"
proof (induction s)
  case Nil
  then show ?case by auto
next
  case (Cons c s)
  show ?case
  proof
    assume "contains pat (c # s)"
    then consider "prefix pat (c # s)" | "contains pat s" by auto
    then show "\<exists>pre post. c # s = pre @ pat @ post"
    proof cases
      case 1
      then obtain r where "c # s = pat @ r" by (auto simp: prefix_def)
      then have "c # s = [] @ pat @ r" by simp
      then show ?thesis by blast
    next
      case 2
      with Cons.IH obtain pre post where "s = pre @ pat @ post" by blast
      then have "c # s = (c # pre) @ pat @ post" by simp
      then show ?thesis by blast
    qed
  next
    assume "\<exists>pre post. c # s = pre @ pat @ post"
    then obtain pre post where eq: "c # s = pre @ pat @ post" by blast
    show "contains pat (c # s)"
    proof (cases pre)
      case Nil
      with eq have "prefix pat (c # s)" by (simp add: prefix_def)
      then show ?thesis by simp
    next
      case (Cons d pre')
      with eq have "s = pre' @ pat @ post" by simp
      with Cons.IH have "contains pat s" by blast
      then show ?thesis by simp
    qed
  qed
qed


lemma until_lit_here: "strip_prefix lit s = Some r \<Longrightarrow> until_lit lit s = Some ([], r)"
  by (cases s) auto







lemma match_block_contains:
  "match_block name s = Some (g, r) \<Longrightarrow> contains (block_open name) s"
  by (auto dest!: match_block_sound simp: contains_iff intro: exI [of _ "[]"])

lemma sub_block_absent:
  "\<not> contains (block_open name) s \<Longrightarrow> sub_block name tpl s = s"
proof (induction s)
  case Nil
  then have "match_block name [] = None"
    by (cases "match_block name []") (auto dest: match_block_contains)
  then show ?case by (subst sub_block.simps) simp
next
  case (Cons c s)
  then have "match_block name (c # s) = None"
    by (cases "match_block name (c # s)") (auto dest: match_block_contains simp del: contains.simps)
  moreover have "sub_block name tpl s = s" using Cons by simp
  ultimately show ?case by (subst sub_block.simps) simp
qed

lemma cons_piece_Inr [simp]: "cons_piece ps (Inr qs) = Inr (ps @ qs)"
  by (simp add: cons_piece_def)

lemma parse_template_plain:
  "backslash \<notin> set s \<Longrightarrow> parse_template s = Inr (map Lit s)"
  by (induction s) (auto simp: parse_template.simps(2))


lemma re_sub_block_plain:
  "backslash \<notin> set repl \<Longrightarrow> re_sub_block name repl s = Inr (sub_block name (map Lit repl) s)"
  by (simp add: re_sub_block_def parse_template_plain)

subsection \<open>Characters of an extracted block; rendering without backslashes\<close>

lemma match_block_set: "match_block name s = Some (g, r) \<Longrightarrow> set g \<subseteq> set s"
  by (drule match_block_sound) auto

lemma search_block_set: "search_block name s = Some g \<Longrightarrow> set g \<subseteq> set s"
proof (induction s)
  case Nil
  then show ?case by (auto dest: match_block_set)
next
  case (Cons c s)
  then show ?case by (fastforce split: option.splits dest: match_block_set)
qed

lemma strip_set: "set (strip g) \<subseteq> set g"
proof -
  have "set (dropWhile is_space (rev (dropWhile is_space g))) \<subseteq> set (rev (dropWhile is_space g))"
    by (auto dest: set_dropWhileD)
  also have "\<dots> \<subseteq> set g" by (auto dest: set_dropWhileD)
  finally show ?thesis by (simp add: strip_def)
qed

lemma splice_content_ok:
  assumes "backslash \<notin> set content"
  shows "\<exists>out. splice_content content base_content = Inr out"
proof (cases "search_block ''content'' content")
  case None
  then show ?thesis by (simp add: splice_content_def)
next
  case (Some g)
  then have "backslash \<notin> set (strip g)"
    using assms search_block_set [of "''content''" content g] strip_set [of g] by blast
  then show ?thesis using Some by (simp add: splice_content_def re_sub_block_plain)
qed

lemma splice_title_ok:
  assumes "backslash \<notin> set content" "backslash \<notin> set (ctx_get context ''title'' ''WasmWiz'')"
  shows "\<exists>out. splice_title content context rendered = Inr out"
proof (cases "search_block ''title'' content")
  case None
  then show ?thesis using assms(2) by (simp add: splice_title_def re_sub_block_plain)
next
  case (Some g)
  then have "backslash \<notin> set (strip g)"
    using assms(1) search_block_set [of "''title''" content g] strip_set [of g] by blast
  then show ?thesis using Some by (simp add: splice_title_def re_sub_block_plain)
qed

lemma resolve_inheritance_ok:
  assumes "backslash \<notin> set content" "backslash \<notin> set (ctx_get context ''title'' ''WasmWiz'')"
  shows "\<exists>out. resolve_inheritance templates content context = Inr out"
proof (cases "composer_state_of content")
  case Standalone
  then show ?thesis by (simp add: resolve_inheritance_def)
next
  case Inheriting
  show ?thesis
  proof (cases "templates ''base.html''")
    case None
    with Inheriting show ?thesis by (simp add: resolve_inheritance_def)
  next
    case (Some base_content)
    obtain r where r: "splice_content content base_content = Inr r"
      using splice_content_ok [OF assms(1)] by blast
    obtain out where "splice_title content context r = Inr out"
      using splice_title_ok [OF assms] by blast
    with r Some Inheriting show ?thesis by (simp add: resolve_inheritance_def)
  qed
qed

subsection \<open>Soundness of the block search; the title table\<close>

lemma search_block_sound:
  "search_block name s = Some g \<Longrightarrow>
     \<exists>pre r. s = pre @ block_open name @ g @ block_close @ r"
proof (induction s)
  case Nil
  then obtain r where "match_block name [] = Some (g, r)" by auto
  then have "[] = [] @ block_open name @ g @ block_close @ r"
    by (auto dest: match_block_sound)
  then show ?case by blast
next
  case (Cons c s)
  show ?case
  proof (cases "match_block name (c # s)")
    case None
    with Cons obtain pre r where "s = pre @ block_open name @ g @ block_close @ r" by auto
    then have "c # s = (c # pre) @ block_open name @ g @ block_close @ r" by simp
    then show ?thesis by blast
  next
    case (Some a)
    with Cons.prems obtain r where "match_block name (c # s) = Some (g, r)"
      by (cases a) auto
    then have "c # s = [] @ block_open name @ g @ block_close @ r"
      by (auto dest: match_block_sound)
    then show ?thesis by blast
  qed
qed

lemma search_block_needs_markers:
  assumes "\<not> contains block_close s \<or> \<not> contains (block_open name) s"
  shows "search_block name s = None"
proof (cases "search_block name s")
  case None
  then show ?thesis .
next
  case (Some g)
  then obtain pre r where eq: "s = pre @ block_open name @ g @ block_close @ r"
    using search_block_sound by blast
  have "contains (block_open name) s"
    unfolding contains_iff using eq by blast
  moreover have "s = (pre @ block_open name @ g) @ block_close @ r" using eq by simp
  then have "contains block_close s"
    unfolding contains_iff by blast
  ultimately show ?thesis using assms by blast
qed

lemma until_lit_complete: "until_lit lit (g @ lit @ r) \<noteq> None"
proof (induction g)
  case Nil
  show ?case by (simp add: until_lit_here)
next
  case (Cons c g)
  then show ?case by (cases "strip_prefix lit (c # g @ lit @ r)") auto
qed

lemma match_block_complete:
  "match_block name (block_open name @ g @ block_close @ r) \<noteq> None"
  by (simp add: match_block_def until_lit_complete)

lemma search_block_complete:
  "search_block name (pre @ block_open name @ g @ block_close @ r) \<noteq> None"
proof (induction pre)
  case Nil
  obtain m where m: "match_block name (block_open name @ g @ block_close @ r) = Some m"
    using match_block_complete [of name g r] by auto
  obtain c s where cs: "block_open name @ g @ block_close @ r = c # s"
    by (cases "block_open name @ g @ block_close @ r") (auto simp: block_open_def)
  show ?case using m cs by (cases m) auto
next
  case (Cons c pre)
  then show ?case
    by (cases "match_block name (c # pre @ block_open name @ g @ block_close @ r)") auto
qed

lemma search_block_None_iff:
  "search_block name s = None \<longleftrightarrow>
     \<not> (\<exists>pre g r. s = pre @ block_open name @ g @ block_close @ r)"
proof
  assume n: "search_block name s = None"
  show "\<not> (\<exists>pre g r. s = pre @ block_open name @ g @ block_close @ r)"
  proof
    assume "\<exists>pre g r. s = pre @ block_open name @ g @ block_close @ r"
    then obtain pre g r where "s = pre @ block_open name @ g @ block_close @ r" by blast
    then have "search_block name s \<noteq> None" by (simp add: search_block_complete)
    with n show False by simp
  qed
next
  assume a: "\<not> (\<exists>pre g r. s = pre @ block_open name @ g @ block_close @ r)"
  show "search_block name s = None"
  proof (cases "search_block name s")
    case None
    then show ?thesis .
  next
    case (Some g)
    then have "\<exists>pre r. s = pre @ block_open name @ g @ block_close @ r"
      by (rule search_block_sound)
    with a show ?thesis by blast
  qed
qed



subsection \<open>The conditional class pattern\<close>

lemma match_g3_complete: "quote \<notin> set g3 \<Longrightarrow> match_g3 (g3 @ quote # r) = Some (g3, r)"
  by (induction g3) auto

lemma after_g2_complete:
  "quote \<notin> set g3 \<Longrightarrow> after_g2 (if_close @ g3 @ quote # r) = Some (g3, r)"
  by (simp add: after_g2_def match_g3_complete)

lemma match_g2_quote: "match_g2 (if_close @ s) = None"
  by (simp add: if_close_def quote_def)

lemma match_g2_complete:
  assumes "g2 \<noteq> []" "quote \<notin> set g2" "quote \<notin> set g3"
  shows "match_g2 (g2 @ if_close @ g3 @ quote # r) = Some (g2, g3, r)"
  using assms(1,2)
proof (induction g2)
  case Nil
  then show ?case by simp
next
  case (Cons c g2)
  show ?case
  proof (cases "g2 = []")
    case True
    then show ?thesis
      using Cons.prems after_g2_complete [OF assms(3)] match_g2_quote by simp
  next
    case False
    then have "match_g2 (g2 @ if_close @ g3 @ quote # r) = Some (g2, g3, r)"
      using Cons by simp
    then show ?thesis using Cons.prems by auto
  qed
qed

lemma after_g1_complete:
  assumes "g2 \<noteq> []" "quote \<notin> set g2" "quote \<notin> set g3"
  shows "after_g1 (if_open @ g2 @ if_close @ g3 @ quote # r) = Some (g2, g3, r)"
  by (simp add: after_g1_def match_g2_complete [OF assms])

lemma first_quote_unique:
  assumes "x @ a @ q # r = a @ q # t" "q \<notin> set x" "q \<notin> set a"
  shows "x = []"
proof -
  have "takeWhile (\<lambda>c. c \<noteq> q) ((x @ a) @ q # r) = x @ a"
    using assms(2,3) by (intro takeWhile_append2 [THEN trans]) auto
  moreover have "takeWhile (\<lambda>c. c \<noteq> q) (a @ q # t) = a"
    using assms(3) by (intro takeWhile_append2 [THEN trans]) auto
  ultimately have "x @ a = a" using assms(1) by simp
  then show ?thesis by simp
qed

lemma if_open_split: "if_open = ''{% if active_page == '' @ [quote]"
  by (simp add: if_open_def quote_def)

lemma after_g1_inside:
  assumes "quote \<notin> set (c # g1)"
  shows "after_g1 ((c # g1) @ if_open @ s) = None"
proof -
  have "\<not> prefix if_open ((c # g1) @ if_open @ s)"
  proof
    assume "prefix if_open ((c # g1) @ if_open @ s)"
    then obtain t where "(c # g1) @ if_open @ s = if_open @ t" by (auto simp: prefix_def)
    then have e: "(c # g1) @ ''{% if active_page == '' @ quote # s = ''{% if active_page == '' @ quote # t"
      by (simp add: if_open_split)
    have q: "quote \<notin> set ''{% if active_page == ''" by (simp add: quote_def)
    have "c # g1 = []"
      using e assms q by (rule first_quote_unique)
    then show False by simp
  qed
  then have "strip_prefix if_open ((c # g1) @ if_open @ s) = None"
    by (simp add: strip_prefix_None_iff)
  then show ?thesis by (simp add: after_g1_def)
qed

lemma match_g1_complete:
  assumes "quote \<notin> set g1" "g2 \<noteq> []" "quote \<notin> set g2" "quote \<notin> set g3"
  shows "match_g1 (g1 @ if_open @ g2 @ if_close @ g3 @ quote # r) = Some (g1, g2, g3, r)"
  using assms(1)
proof (induction g1)
  case Nil
  have "after_g1 (if_open @ g2 @ if_close @ g3 @ quote # r) = Some (g2, g3, r)"
    using assms(2-4) by (rule after_g1_complete)
  then show ?case by (cases "if_open @ g2 @ if_close @ g3 @ quote # r") auto
next
  case (Cons c g1)
  have "after_g1 ((c # g1) @ if_open @ g2 @ if_close @ g3 @ quote # r) = None"
    using Cons.prems by (rule after_g1_inside)
  moreover have "match_g1 (g1 @ if_open @ g2 @ if_close @ g3 @ quote # r) = Some (g1, g2, g3, r)"
    using Cons by simp
  ultimately show ?case using Cons.prems by auto
qed

lemma match_active_complete:
  assumes "quote \<notin> set g1" "g2 \<noteq> []" "quote \<notin> set g2" "quote \<notin> set g3"
  shows "match_active (class_open @ g1 @ if_open @ g2 @ if_close @ g3 @ quote # r) =
           Some (g1, g2, g3, r)"
  by (simp add: match_active_def match_g1_complete [OF assms])

lemma class_open_border:
  assumes "x \<noteq> []" "prefix class_open (x @ class_open @ w)"
  shows "prefix class_open x"
  using assms unfolding class_open_def
  by (auto simp: prefix_def append_eq_Cons_conv Cons_eq_append_conv)

lemma match_g1_noquote: "match_g1 s = Some (g1, g2, g3, r) \<Longrightarrow> quote \<notin> set g1"
  by (induction s arbitrary: g1) (auto split: option.splits if_splits)

lemma match_active_noquote: "match_active s = Some (g1, g2, g3, r) \<Longrightarrow> quote \<notin> set g1"
  by (auto simp: match_active_def split: option.splits dest: match_g1_noquote)

lemma class_open_split: "class_open = ''class='' @ [quote]"
  by (simp add: class_open_def quote_def)

lemma takeWhile_first_quote:
  "q \<notin> set u \<Longrightarrow> takeWhile (\<lambda>c. c \<noteq> q) (u @ q # v) = u"
  by (induction u) auto

lemma open_after_class_here:
  "quote \<notin> set g1 \<Longrightarrow> open_after_class (g1 @ if_open @ v)"
proof (induction g1)
  case Nil
  show ?case by (simp add: if_open_def)
next
  case (Cons c g1)
  then show ?case by auto
qed

lemma opens_directive_here:
  "quote \<notin> set g1 \<Longrightarrow> opens_directive (class_open @ g1 @ if_open @ v)"
proof -
  assume q: "quote \<notin> set g1"
  obtain c s where cs: "class_open @ g1 @ if_open @ v = c # s"
    by (cases "class_open @ g1 @ if_open @ v") (auto simp: class_open_def)
  have "strip_prefix class_open (c # s) = Some (g1 @ if_open @ v)"
    using cs [symmetric] by simp
  then have "opens_directive (c # s)" using open_after_class_here [OF q] by simp
  then show ?thesis using cs by simp
qed

lemma match_active_inert:
  assumes "x \<noteq> []" "\<not> opens_directive x"
  shows "match_active (x @ class_open @ w) = None"
proof (cases "match_active (x @ class_open @ w)")
  case None
  then show ?thesis .
next
  case (Some m)
  obtain g1 g2 g3 r where m: "m = (g1, g2, g3, r)" by (cases m) auto
  have eq: "x @ class_open @ w = class_open @ g1 @ if_open @ g2 @ if_close @ g3 @ quote # r"
    using Some m by (auto dest: match_active_sound)
  have nq: "quote \<notin> set g1" using Some m by (auto dest: match_active_noquote)
  have "prefix class_open (x @ class_open @ w)" using eq by (simp add: prefix_def)
  then have "prefix class_open x" using assms(1) by (rule class_open_border [rotated])
  then obtain x' where x: "x = class_open @ x'" by (auto simp: prefix_def)
  define a where "a = ''{% if active_page == ''"
  have qa: "quote \<notin> set a" by (simp add: a_def quote_def)
  have io: "if_open = a @ [quote]" by (simp add: a_def if_open_split)
  have eq': "x' @ ''class='' @ quote # w = (g1 @ a) @ quote # (g2 @ if_close @ g3 @ quote # r)"
    using eq x by (simp add: io class_open_split)
  have rhs: "takeWhile (\<lambda>c. c \<noteq> quote) ((g1 @ a) @ quote # (g2 @ if_close @ g3 @ quote # r)) = g1 @ a"
    using nq qa by (intro takeWhile_first_quote) simp
  show ?thesis
  proof (cases "quote \<in> set x'")
    case False
    have "takeWhile (\<lambda>c. c \<noteq> quote) ((x' @ ''class='') @ quote # w) = x' @ ''class=''"
      using False by (intro takeWhile_first_quote) (simp add: quote_def)
    then have "x' @ ''class='' = g1 @ a" using eq' rhs by simp
    then have "last (x' @ ''class='') = last (g1 @ a)" by simp
    then show ?thesis by (simp add: a_def)
  next
    case True
    then obtain u v where uv: "x' = u @ quote # v" "quote \<notin> set u"
      by (auto dest: split_list_first)
    have "takeWhile (\<lambda>c. c \<noteq> quote) (u @ quote # (v @ ''class='' @ quote # w)) = u"
      using uv(2) by (rule takeWhile_first_quote)
    then have "u = g1 @ a" using eq' rhs uv(1) by simp
    then have "x = class_open @ g1 @ if_open @ v" using x uv(1) io by simp
    then have "opens_directive x" using opens_directive_here [OF nq] by simp
    with assms(2) show ?thesis by simp
  qed
qed

lemma resolve_active_class_fragment:
  assumes "\<not> opens_directive t"
    and "quote \<notin> set g1" "g2 \<noteq> []" "quote \<notin> set g2" "quote \<notin> set g3"
  shows "resolve_active_class active_page
           (t @ class_open @ g1 @ if_open @ g2 @ if_close @ g3 @ quote # r) =
         t @ active_repl active_page g1 g2 g3 @ resolve_active_class active_page r"
  using assms(1)
proof (induction t)
  case Nil
  show ?case
    by (subst resolve_active_class.simps) (simp add: match_active_complete [OF assms(2-5)])
next
  case (Cons c t)
  have "match_active ((c # t) @ class_open @ g1 @ if_open @ g2 @ if_close @ g3 @ quote # r) = None"
    using Cons.prems by (intro match_active_inert) simp_all
  moreover have "resolve_active_class active_page
           (t @ class_open @ g1 @ if_open @ g2 @ if_close @ g3 @ quote # r) =
         t @ active_repl active_page g1 g2 g3 @ resolve_active_class active_page r"
    using Cons by simp
  ultimately show ?case by (subst resolve_active_class.simps) simp
qed

lemma resolve_active_class_inert:
  "\<not> opens_directive s \<Longrightarrow> resolve_active_class active_page s = s"
proof (induction s)
  case Nil
  have "match_active [] = None"
  proof (cases "match_active []")
    case (Some m)
    then show ?thesis by (cases m) (auto dest: match_active_sound simp: class_open_def)
  qed simp
  then show ?case by (subst resolve_active_class.simps) simp
next
  case (Cons c s)
  have "match_active (c # s) = None"
  proof (cases "match_active (c # s)")
    case (Some m)
    obtain g1 g2 g3 r where m: "m = (g1, g2, g3, r)" by (cases m) auto
    have "c # s = class_open @ g1 @ if_open @ (g2 @ if_close @ g3 @ quote # r)"
      using Some m by (auto dest: match_active_sound)
    moreover have "quote \<notin> set g1" using Some m by (auto dest: match_active_noquote)
    ultimately have "opens_directive (c # s)"
      using opens_directive_here [of g1 "g2 @ if_close @ g3 @ quote # r"] by simp
    with Cons.prems show ?thesis by simp
  qed simp
  moreover have "resolve_active_class active_page s = s" using Cons by simp
  ultimately show ?case by (subst resolve_active_class.simps) simp
qed

lemma match_active_needs:
  "match_active s = Some m \<Longrightarrow> contains class_open s \<and> contains if_open s"
proof -
  assume a: "match_active s = Some m"
  obtain g1 g2 g3 r where "m = (g1, g2, g3, r)" by (cases m) auto
  with a have eq: "s = class_open @ g1 @ if_open @ g2 @ if_close @ g3 @ quote # r"
    by (auto dest: match_active_sound)
  then have "s = [] @ class_open @ (g1 @ if_open @ g2 @ if_close @ g3 @ quote # r)" by simp
  then have 1: "contains class_open s" unfolding contains_iff by blast
  have "s = (class_open @ g1) @ if_open @ (g2 @ if_close @ g3 @ quote # r)" using eq by simp
  then have "contains if_open s" unfolding contains_iff by blast
  with 1 show ?thesis by simp
qed

lemma resolve_active_class_unchanged:
  "\<not> contains class_open s \<or> \<not> contains if_open s \<Longrightarrow> resolve_active_class active_page s = s"
proof (induction s)
  case Nil
  then have "match_active [] = None"
    by (cases "match_active []") (auto dest: match_active_needs)
  then show ?case by (subst resolve_active_class.simps) simp
next
  case (Cons c s)
  then have "match_active (c # s) = None"
    by (cases "match_active (c # s)") (auto dest: match_active_needs simp del: contains.simps)
  moreover have "resolve_active_class active_page s = s" using Cons by auto
  ultimately show ?case by (subst resolve_active_class.simps) simp
qed

subsection \<open>Replacing the placeholder of one key\<close>

lemma placeholder_unfold: "placeholder k = CHR ''{'' # CHR ''{'' # ('' '' @ k @ '' }}'')"
  by (simp add: placeholder_def)

lemma placeholder_nonempty: "placeholder k \<noteq> []"
  by (simp add: placeholder_def)

lemma str_replace_here:
  "str_replace (placeholder k2) v (placeholder k2 @ b) = v @ str_replace (placeholder k2) v b"
  by (subst str_replace.simps) (simp add: placeholder_nonempty)

lemma str_replace_skip:
  assumes "strip_prefix (placeholder k2) (c # s) = None"
  shows "str_replace (placeholder k2) v (c # s) = c # str_replace (placeholder k2) v s"
  by (subst str_replace.simps) (simp add: placeholder_nonempty assms)

lemma str_replace_Nil: "str_replace (placeholder k2) v [] = []"
  by (subst str_replace.simps) (simp add: placeholder_def)

lemma str_replace_braces_apart:
  "braces_apart x \<Longrightarrow>
     str_replace (placeholder k2) v (x @ b) = x @ str_replace (placeholder k2) v b"
proof (induction x rule: braces_apart.induct)
  case 1
  show ?case by simp
next
  case (2 c)
  then have "strip_prefix (placeholder k2) (c # b) = None"
    by (auto simp: placeholder_unfold)
  then show ?case by (simp add: str_replace_skip)
next
  case (3 c d s)
  then have "strip_prefix (placeholder k2) (c # (d # s) @ b) = None"
    by (auto simp: placeholder_unfold)
  moreover have "str_replace (placeholder k2) v ((d # s) @ b) =
      (d # s) @ str_replace (placeholder k2) v b"
    using 3 by simp
  ultimately show ?case by (simp add: str_replace_skip)
qed

lemma no_open_braces_apart: "CHR ''{'' \<notin> set x \<Longrightarrow> braces_apart x"
  by (induction x rule: braces_apart.induct) auto

lemma str_replace_no_open:
  "CHR ''{'' \<notin> set x \<Longrightarrow>
     str_replace (placeholder k2) v (x @ b) = x @ str_replace (placeholder k2) v b"
  by (simp add: str_replace_braces_apart no_open_braces_apart)

lemma same_start_same_key:
  assumes "placeholder k @ b = placeholder k2 @ t" "CHR ''}'' \<notin> set k" "CHR ''}'' \<notin> set k2"
  shows "k = k2"
proof -
  have e: "(k @ '' '') @ CHR ''}'' # (CHR ''}'' # b) = (k2 @ '' '') @ CHR ''}'' # (CHR ''}'' # t)"
    using assms(1) by (simp add: placeholder_def)
  have "takeWhile (\<lambda>c. c \<noteq> CHR ''}'') ((k @ '' '') @ CHR ''}'' # (CHR ''}'' # b)) = k @ '' ''"
    using assms(2) by (intro takeWhile_first_quote) simp
  moreover have "takeWhile (\<lambda>c. c \<noteq> CHR ''}'') ((k2 @ '' '') @ CHR ''}'' # (CHR ''}'' # t)) = k2 @ '' ''"
    using assms(3) by (intro takeWhile_first_quote) simp
  ultimately have "k @ '' '' = k2 @ '' ''" using e by simp
  then show ?thesis by simp
qed

lemma str_replace_other_key:
  assumes "k \<noteq> k2" "brace_free k" "CHR ''}'' \<notin> set k2"
  shows "str_replace (placeholder k2) v (placeholder k @ b) =
           placeholder k @ str_replace (placeholder k2) v b"
proof -
  have n0: "strip_prefix (placeholder k2) (placeholder k @ b) = None"
  proof (cases "strip_prefix (placeholder k2) (placeholder k @ b)")
    case None
    then show ?thesis .
  next
    case (Some t)
    then have e: "placeholder k @ b = placeholder k2 @ t" by (simp add: strip_prefix_Some_iff)
    have "CHR ''}'' \<notin> set k" using assms(2) by (simp add: brace_free_def)
    then have "k = k2" using assms(3) by (rule same_start_same_key [OF e])
    with assms(1) show ?thesis by simp
  qed
  have n1: "strip_prefix (placeholder k2) (CHR ''{'' # ('' '' @ k @ '' }}'') @ b) = None"
    by (simp add: placeholder_unfold)
  have x: "CHR ''{'' \<notin> set ('' '' @ k @ '' }}'')"
    using assms(2) by (simp add: brace_free_def)
  have "str_replace (placeholder k2) v (placeholder k @ b) =
          CHR ''{'' # str_replace (placeholder k2) v (CHR ''{'' # ('' '' @ k @ '' }}'') @ b)"
    using n0 by (simp add: placeholder_unfold [of k] str_replace_skip)
  also have "\<dots> = CHR ''{'' # CHR ''{'' # str_replace (placeholder k2) v (('' '' @ k @ '' }}'') @ b)"
    using n1 by (simp add: str_replace_skip)
  also have "\<dots> = CHR ''{'' # CHR ''{'' # ('' '' @ k @ '' }}'') @ str_replace (placeholder k2) v b"
    using str_replace_no_open [OF x] by simp
  finally show ?thesis by (simp add: placeholder_unfold [of k])
qed

lemma subst1_ok:
  "segment_ok seg \<Longrightarrow> braces_apart v \<Longrightarrow> segment_ok (subst1 k2 v seg)"
  by (cases seg) auto

lemma str_replace_segments:
  assumes "list_all segment_ok segs" "CHR ''}'' \<notin> set k2"
  shows "str_replace (placeholder k2) v (concat (map segment_source segs)) =
           concat (map segment_source (map (subst1 k2 v) segs))"
  using assms(1)
proof (induction segs)
  case Nil
  show ?case by (simp add: str_replace_Nil)
next
  case (Cons seg segs)
  have ih: "str_replace (placeholder k2) v (concat (map segment_source segs)) =
           concat (map segment_source (map (subst1 k2 v) segs))"
    using Cons by simp
  show ?case
  proof (cases seg)
    case (Text t)
    then have "braces_apart t" using Cons.prems by simp
    then show ?thesis using Text ih by (simp add: str_replace_braces_apart)
  next
    case (Var k)
    then have bf: "brace_free k" using Cons.prems by simp
    show ?thesis
    proof (cases "k = k2")
      case True
      then show ?thesis using Var ih by (simp add: str_replace_here)
    next
      case False
      then show ?thesis
        using Var ih str_replace_other_key [OF False bf assms(2)] by simp
    qed
  qed
qed

lemma simultaneous_step:
  "simultaneous context (subst1 k2 v seg) = simultaneous ((k2, v) # context) seg"
  by (cases seg) auto

lemma substitute_variables_segments:
  assumes "context_ok context" "list_all segment_ok segs"
  shows "substitute_variables context (concat (map segment_source segs)) =
           concat (map (simultaneous context) segs)"
  using assms
proof (induction "context" arbitrary: segs)
  case Nil
  have "segment_source seg = simultaneous [] seg" for seg
    by (cases seg) auto
  then have "segment_source = simultaneous []" by blast
  then show ?case by simp
next
  case (Cons kv ctx)
  obtain k2 v where kv: "kv = (k2, v)" by (cases kv) auto
  have k2: "CHR ''}'' \<notin> set k2" and v: "braces_apart v" and ok: "context_ok ctx"
    using Cons.prems(1) kv by (simp_all add: context_ok_def brace_free_def)
  have segs': "list_all segment_ok (map (subst1 k2 v) segs)"
    using Cons.prems(2) v by (simp add: list_all_iff subst1_ok)
  have "substitute_variables (kv # ctx) (concat (map segment_source segs)) =
          substitute_variables ctx (concat (map segment_source (map (subst1 k2 v) segs)))"
    using str_replace_segments [OF Cons.prems(2) k2, of v] by (simp add: kv)
  also have "\<dots> = concat (map (simultaneous ctx) (map (subst1 k2 v) segs))"
    using ok segs' by (rule Cons.IH)
  also have "\<dots> = concat (map (simultaneous (kv # ctx)) segs)"
    by (simp add: kv simultaneous_step comp_def)
  finally show ?case .
qed





lemma simultaneous_map_of:
  "map_of context = map_of context' \<Longrightarrow> simultaneous context seg = simultaneous context' seg"
  by (cases seg) auto

section \<open>The claims\<close>

subsection \<open>C1: a base document that cannot be loaded\<close>

text \<open>
  C1, as the code has it. When a document is in the Inheriting state and the file
  base.html does not exist (\<^verbatim>\<open>os.path.exists\<close> is false), rendering raises nothing:
  the document itself becomes the working document, as in the Standalone state, and the
  result is that document after variable substitution and the conditional class.
\<close>

theorem C1_missing_base_passthrough:
  assumes "composer_state_of content = Inheriting"
    and "templates ''base.html'' = None"
  shows "render_template templates content context =
           Inr (resolve_active_class (ctx_get context ''active_page'' [])
                  (substitute_variables context content))"
  using assms by (simp add: render_template_def resolve_inheritance_def)

text \<open>
  The claim as the specification words it fails: with no base document at all, the
  inheriting document \<open>doc_c1\<close> is rendered, and the result is the document itself.
\<close>

theorem C1_counterexample:
  "composer_state_of doc_c1 = Inheriting \<and>
   render_template (map_of []) doc_c1 [] = Inr doc_c1"
  by code_simp

theorem C1_missing_base_passthrough_witness:
  \<open>render_template (map_of []) doc_c1 [(''title'', ''Docs'')] =
     Inr ''{% extends "base.html" %}<p>Docs</p>''\<close>
proof -
  have h1: "composer_state_of doc_c1 = Inheriting" by code_simp
  have h2: "(map_of [] :: string \<Rightarrow> string option) ''base.html'' = None" by simp
  have h3: \<open>resolve_active_class (ctx_get [(''title'', ''Docs'')] ''active_page'' [])
                  (substitute_variables [(''title'', ''Docs'')] doc_c1) = ''{% extends "base.html" %}<p>Docs</p>''\<close>
    by code_simp
  show ?thesis
    using C1_missing_base_passthrough [of doc_c1 "map_of []" "[(''title'', ''Docs'')]", OF h1 h2] h3
    by simp
qed

subsection \<open>C2: a child without a content block\<close>

text \<open>
  C2, as the code has it. When a document in the Inheriting state declares no content
  block, line 125 takes the base document as it is: its content block stays in place
  with its delimiters, and only the title splice is applied to it. When the base has no
  title block and neither the child nor the title of the context has a backslash, the
  base document is rendered whole; for the base
  \<^verbatim>\<open><body>{% block content %}DEFAULT{% endblock %}</body>\<close> the result is that very text.
\<close>

theorem C2_base_block_left_in_place:
  assumes "composer_state_of content = Inheriting"
    and "templates ''base.html'' = Some base_content"
    and "search_block ''content'' content = None"
  shows "resolve_inheritance templates content context =
           splice_title content context base_content \<and>
         (\<not> contains (block_open ''title'') base_content \<and> backslash \<notin> set content \<and>
          backslash \<notin> set (ctx_get context ''title'' ''WasmWiz'') \<longrightarrow>
            render_template templates content context =
              Inr (resolve_active_class (ctx_get context ''active_page'' [])
                     (substitute_variables context base_content)))"
proof -
  have r: "resolve_inheritance templates content context =
           splice_title content context base_content"
    using assms by (simp add: resolve_inheritance_def splice_content_def)
  have "splice_title content context base_content = Inr base_content"
    if nt: "\<not> contains (block_open ''title'') base_content"
      and b1: "backslash \<notin> set content"
      and b2: "backslash \<notin> set (ctx_get context ''title'' ''WasmWiz'')"
  proof (cases "search_block ''title'' content")
    case None
    then show ?thesis
      using b2 nt by (simp add: splice_title_def re_sub_block_plain sub_block_absent)
  next
    case (Some g)
    then have "backslash \<notin> set (strip g)"
      using b1 search_block_set [of "''title''" content g] strip_set [of g] by blast
    then show ?thesis
      using Some nt by (simp add: splice_title_def re_sub_block_plain sub_block_absent)
  qed
  with r show ?thesis by (simp add: render_template_def)
qed

text \<open>
  The claim as worded fails: the delimiters are not removed, neither in the syntax of the
  code nor in the spelling the specification uses for its example.
\<close>

theorem C2_counterexample:
  "render_template (map_of [(''base.html'', base_c2)]) child_c2 [] = Inr base_c2 \<and>
   base_c2 \<noteq> ''<body>DEFAULT</body>'' \<and>
   render_template (map_of [(''base.html'', base_c2_spec)]) child_c2 [] = Inr base_c2_spec \<and>
   base_c2_spec \<noteq> ''<body>DEFAULT</body>''"
  by code_simp

theorem C2_base_block_left_in_place_witness:
  "resolve_inheritance (map_of [(''base.html'', base_c2)]) child_c2 [] =
     splice_title child_c2 [] base_c2 \<and>
   render_template (map_of [(''base.html'', base_c2)]) child_c2 [] =
     Inr ''<body>{% block content %}DEFAULT{% endblock %}</body>''"
proof -
  have h1: "composer_state_of child_c2 = Inheriting" by code_simp
  have h2: "map_of [(''base.html'', base_c2)] ''base.html'' = Some base_c2" by simp
  have h3: "search_block ''content'' child_c2 = None" by code_simp
  have h4: "\<not> contains (block_open ''title'') base_c2 \<and> backslash \<notin> set child_c2 \<and>
          backslash \<notin> set (ctx_get [] ''title'' ''WasmWiz'')" by code_simp
  have h5: "resolve_active_class (ctx_get [] ''active_page'' []) (substitute_variables [] base_c2) =
     ''<body>{% block content %}DEFAULT{% endblock %}</body>''" by code_simp
  show ?thesis
    using C2_base_block_left_in_place [of child_c2 "map_of [(''base.html'', base_c2)]" base_c2 "[]", OF h1 h2 h3]
      h4 h5 by simp
qed

subsection \<open>C3: block markers without their partner\<close>

text \<open>
  C3, as the code has it. An open marker without a close marker after it, or a close
  marker without an open marker before it, raises nothing: rendering returns a document
  whenever neither the document nor the title of the context has a backslash.
  \<^verbatim>\<open>re.search\<close> finds a block of a name exactly when some open marker of that name
  has a close marker somewhere after it; when no open marker of the content block has
  one, the content splice leaves the base document as it is.
\<close>

theorem C3_unmatched_marker_raises_nothing:
  assumes "backslash \<notin> set content"
    and "backslash \<notin> set (ctx_get context ''title'' ''WasmWiz'')"
  shows "(\<exists>out. render_template templates content context = Inr out) \<and>
         (search_block name content = None \<longleftrightarrow>
            \<not> (\<exists>pre g r. content = pre @ block_open name @ g @ block_close @ r)) \<and>
         (\<not> (\<exists>pre g r. content = pre @ block_open ''content'' @ g @ block_close @ r) \<longrightarrow>
            splice_content content base_content = Inr base_content)"
proof -
  obtain r where "resolve_inheritance templates content context = Inr r"
    using resolve_inheritance_ok [OF assms] by blast
  then have 1: "\<exists>out. render_template templates content context = Inr out"
    by (simp add: render_template_def)
  have 2: "search_block name content = None \<longleftrightarrow>
            \<not> (\<exists>pre g r. content = pre @ block_open name @ g @ block_close @ r)"
    by (rule search_block_None_iff)
  have 3: "splice_content content base_content = Inr base_content"
    if "\<not> (\<exists>pre g r. content = pre @ block_open ''content'' @ g @ block_close @ r)"
  proof -
    have "search_block ''content'' content = None"
      using that by (simp only: search_block_None_iff not_False_eq_True)
    then show ?thesis by (simp add: splice_content_def)
  qed
  from 1 2 3 show ?thesis by blast
qed

text \<open>
  The claim as worded fails: the child \<open>child_c3\<close> opens a content block and never
  closes it, and is rendered to the base document without any error; a lone close marker
  in a Standalone document stays in the output.
\<close>

theorem C3_counterexample:
  "contains (block_open ''content'') child_c3 \<and> \<not> contains block_close child_c3 \<and>
   render_template (map_of [(''base.html'', base_c2)]) child_c3 [] = Inr base_c2 \<and>
   render_template (map_of []) ''<p>{% endblock %}</p>'' [] = Inr ''<p>{% endblock %}</p>''"
  by code_simp

theorem C3_unmatched_marker_raises_nothing_witness:
  "render_template (map_of [(''base.html'', base_c2)]) child_c3 [] = Inr base_c2 \<and>
   search_block ''content'' child_c3 = None \<and>
   splice_content child_c3 base_c2 = Inr base_c2 \<and>
   search_block ''content'' doc_c3 = Some ''A{% block title %}T''"
proof -
  have h1: "backslash \<notin> set child_c3" by code_simp
  have h2: "backslash \<notin> set (ctx_get [] ''title'' ''WasmWiz'')" by code_simp
  have h3: "search_block ''content'' child_c3 = None" by code_simp
  have h4: "render_template (map_of [(''base.html'', base_c2)]) child_c3 [] = Inr base_c2"
    by code_simp
  have h5: "search_block ''content'' doc_c3 = Some ''A{% block title %}T''" by code_simp
  have "splice_content child_c3 base_c2 = Inr base_c2"
    using C3_unmatched_marker_raises_nothing
      [of child_c3 "[]" "map_of [(''base.html'', base_c2)]" "''content''" base_c2, OF h1 h2] h3
    by blast
  then show ?thesis using h3 h4 h5 by simp
qed

subsection \<open>C4: first block of the child, every block of the base\<close>




subsection \<open>C5: substitution key by key\<close>

text \<open>
  C5, as the code has it. Take a document made of placeholders of keys without braces
  and of text in which every opening brace is followed by a character that is not an
  opening brace, and a context whose keys have no brace and whose values obey the same
  rule as the text. Then the replacements made key by key give the simultaneous
  substitution, and a context with the same distinct keys and values in another order
  gives the same output.
\<close>

theorem C5_sequential_equals_simultaneous:
  assumes "list_all segment_ok segs"
    and "context_ok context"
    and "distinct (map fst context)" "distinct (map fst context')" "set context' = set context"
  shows "substitute_variables context (concat (map segment_source segs)) =
           concat (map (simultaneous context) segs) \<and>
         substitute_variables context' (concat (map segment_source segs)) =
           substitute_variables context (concat (map segment_source segs))"
proof -
  have ok': "context_ok context'"
    using assms(2,5) by (simp add: context_ok_def list_all_iff)
  have "map_of context' = map_of context"
    using assms(3-5) by (simp add: map_of_inject_set)
  then have "simultaneous context' = simultaneous context"
    using simultaneous_map_of by blast
  then show ?thesis
    using substitute_variables_segments [OF assms(2,1)]
      substitute_variables_segments [OF ok' assms(1)]
    by simp
qed

text \<open>
  The claim as worded fails: each replacement runs over the whole current text, the values
  inserted for earlier keys included. With the keys \<open>a\<close> and \<open>b\<close> the placeholder
  that the value of \<open>a\<close> brings in is replaced when \<open>b\<close> comes after \<open>a\<close>, and
  stays when \<open>b\<close> comes first. The same happens when the text around a placeholder
  and the value put in its place make up the placeholder of another key (two opening
  braces in the text, an opening brace at the end of the text before a placeholder, or at
  the end of a value), and when a key with braces has a placeholder that covers the
  placeholders of other keys.
\<close>

theorem C5_counterexample:
  "substitute_variables [(''a'', ''{{ b }}''), (''b'', ''X'')] ''{{ a }}'' = ''X'' \<and>
   substitute_variables [(''b'', ''X''), (''a'', ''{{ b }}'')] ''{{ a }}'' = ''{{ b }}'' \<and>
   render_template (map_of []) ''{{ a }}'' [(''a'', ''{{ b }}''), (''b'', ''X'')] = Inr ''X'' \<and>
   substitute_variables [(''a'', ''b''), (''b'', ''Z'')] ''{{ {{ a }} }}'' = ''Z'' \<and>
   substitute_variables [(''b'', ''Z''), (''a'', ''b'')] ''{{ {{ a }} }}'' = ''{{ b }}'' \<and>
   substitute_variables [(''a }}{{ b'', ''X''), (''a'', ''Y'')] ''{{ a }}{{ b }}'' = ''X'' \<and>
   substitute_variables [(''a'', ''Y''), (''a }}{{ b'', ''X'')] ''{{ a }}{{ b }}'' = ''Y{{ b }}'' \<and>
   substitute_variables [(''a'', []), (''b'', ''Z'')] ''{{{ a }}{ b }}'' = ''Z'' \<and>
   substitute_variables [(''b'', ''Z''), (''a'', [])] ''{{{ a }}{ b }}'' = ''{{ b }}'' \<and>
   substitute_variables [(''a'', ''x{''), (''b'', ''Z'')] ''{{ a }}{ b }}'' = ''xZ'' \<and>
   substitute_variables [(''b'', ''Z''), (''a'', ''x{'')] ''{{ a }}{ b }}'' = ''x{{ b }}''"
  by code_simp

theorem C5_sequential_equals_simultaneous_witness:
  "substitute_variables [(''title'', ''Docs''), (''csrf_token'', ''tok'')]
     ''<title>{% block title %}{{ title }}{% endblock %}</title><style>a { color: red }</style><input value={{ csrf_token }}>{{ missing }}'' =
     ''<title>{% block title %}Docs{% endblock %}</title><style>a { color: red }</style><input value=tok>{{ missing }}'' \<and>
   substitute_variables [(''csrf_token'', ''tok''), (''title'', ''Docs'')]
     ''<title>{% block title %}{{ title }}{% endblock %}</title><style>a { color: red }</style><input value={{ csrf_token }}>{{ missing }}'' =
     ''<title>{% block title %}Docs{% endblock %}</title><style>a { color: red }</style><input value=tok>{{ missing }}''"
proof -
  have h1: "list_all segment_ok
      [Text ''<title>{% block title %}'', Var ''title'',
       Text ''{% endblock %}</title><style>a { color: red }</style><input value='',
       Var ''csrf_token'', Text ''>'', Var ''missing'']" by code_simp
  have h2: "context_ok [(''title'', ''Docs''), (''csrf_token'', ''tok'')]" by code_simp
  have h3: "distinct (map fst [(''title'', ''Docs''), (''csrf_token'', ''tok'')])" by simp
  have h4: "distinct (map fst [(''csrf_token'', ''tok''), (''title'', ''Docs'')])" by simp
  have h5: "set [(''csrf_token'', ''tok''), (''title'', ''Docs'')] =
            set [(''title'', ''Docs''), (''csrf_token'', ''tok'')]" by auto
  have e1: "concat (map segment_source
      [Text ''<title>{% block title %}'', Var ''title'',
       Text ''{% endblock %}</title><style>a { color: red }</style><input value='',
       Var ''csrf_token'', Text ''>'', Var ''missing'']) =
     ''<title>{% block title %}{{ title }}{% endblock %}</title><style>a { color: red }</style><input value={{ csrf_token }}>{{ missing }}''"
    by code_simp
  have e2: "concat (map (simultaneous [(''title'', ''Docs''), (''csrf_token'', ''tok'')])
      [Text ''<title>{% block title %}'', Var ''title'',
       Text ''{% endblock %}</title><style>a { color: red }</style><input value='',
       Var ''csrf_token'', Text ''>'', Var ''missing'']) =
     ''<title>{% block title %}Docs{% endblock %}</title><style>a { color: red }</style><input value=tok>{{ missing }}''"
    by code_simp
  show ?thesis
    using C5_sequential_equals_simultaneous [OF h1 h2 h3 h4 h5]
    unfolding e1 e2 by simp
qed

subsection \<open>C6: a Standalone document and the empty context\<close>

text \<open>
  C6, as the code has it. A Standalone document that holds no opening of a conditional
  directive, \<^verbatim>\<open>{% if active_page == "\<close>, is returned unchanged when it is rendered
  with the empty context.
\<close>

theorem C6_standalone_empty_context:
  assumes "composer_state_of content = Standalone"
    and "\<not> contains if_open content"
  shows "render_template templates content [] = Inr content"
  using assms
  by (simp add: render_template_def resolve_inheritance_def resolve_active_class_unchanged)

text \<open>
  The claim as worded fails: the conditional class is resolved whatever the context is,
  against the empty string when the context has no \<open>active_page\<close>, so the directive of
  the Standalone document \<open>doc_c6\<close> is removed.
\<close>

theorem C6_counterexample:
  \<open>composer_state_of doc_c6 = Standalone \<and>
   render_template (map_of []) doc_c6 [] = Inr ''<a class="nav ">Docs</a>''\<close>
  by code_simp

theorem C6_standalone_empty_context_witness:
  "render_template (map_of []) ''<h1>{{ title }}</h1>'' [] = Inr ''<h1>{{ title }}</h1>''"
proof -
  have h1: "composer_state_of ''<h1>{{ title }}</h1>'' = Standalone" by code_simp
  have h2: "\<not> contains if_open ''<h1>{{ title }}</h1>''" by code_simp
  show ?thesis
    using C6_standalone_empty_context [of "''<h1>{{ title }}</h1>''" "map_of []", OF h1 h2] .
qed

subsection \<open>C7: the conditional class\<close>

text \<open>
  C7, as the code has it. Take a document that, after inheritance and variable
  substitution, is made of class attributes of the form the pattern asks for: the
  opening \<^verbatim>\<open>class="\<close>, class text without a double quote, one directive whose target
  is not empty and has no double quote, class text without a double quote, and the
  closing double quote; between the attributes stands text that opens no directive of its
  own (no \<^verbatim>\<open>class="\<close> followed, with no double quote in between, by the opening of a
  directive). Then rendering rewrites every one of these attributes: the class text before
  and after the directive stays, the directive is removed, and \<open>active\<close> stands in its
  place exactly when the target equals the \<open>active_page\<close> of the context (the empty
  string when the context has none); all attributes are resolved against that one value.
\<close>

theorem C7_conditional_class_resolved:
  assumes "resolve_inheritance templates content context = Inr rendered"
    and "substitute_variables context rendered = fragment_doc items tail"
    and "list_all fragment_ok items"
    and "\<not> opens_directive tail"
  shows "render_template templates content context =
           Inr (fragment_doc_resolved (ctx_get context ''active_page'' []) items tail)"
proof -
  have "resolve_active_class active_page (fragment_doc items tail) =
           fragment_doc_resolved active_page items tail" for active_page
    using assms(3)
  proof (induction items)
    case Nil
    show ?case using assms(4) by (simp add: resolve_active_class_inert)
  next
    case (Cons item items)
    obtain t g1 g2 g3 where item: "item = (t, g1, g2, g3)" by (cases item) auto
    have ok: "\<not> opens_directive t"
        "quote \<notin> set g1" "g2 \<noteq> []" "quote \<notin> set g2" "quote \<notin> set g3"
      using Cons.prems item by (simp_all add: fragment_ok_def)
    have "resolve_active_class active_page (fragment_doc items tail) =
             fragment_doc_resolved active_page items tail"
      using Cons by simp
    then show ?case
      using resolve_active_class_fragment [OF ok, of active_page "fragment_doc items tail"]
      by (simp add: item active_repl_def)
  qed
  then show ?thesis using assms(1,2) by (simp add: render_template_def)
qed

text \<open>
  The claim as worded fails for directives that the pattern does not match. In
  \<open>doc_c7\<close> one class attribute holds two directives: the first is resolved and the
  second stays in the output, with no \<open>active\<close> for it although its target is the
  active page. In \<open>doc_c7_empty\<close> the target is empty, and the directive stays
  although the active page is the empty string too. In \<open>doc_c7_open\<close> the first
  class attribute is not closed before the second one opens, and the second attribute
  stays as it is.
\<close>

theorem C7_counterexample:
  \<open>render_template (map_of []) doc_c7 [(''active_page'', ''y'')] =
     Inr ''<a class="a  {% if active_page == "y" %}active{% endif %}">'' \<and>
   ctx_get [] ''active_page'' [] = [] \<and>
   render_template (map_of []) doc_c7_empty [] = Inr doc_c7_empty \<and>
   render_template (map_of []) doc_c7_open [(''active_page'', ''b'')] =
     Inr ''<a class=" <b class="{% if active_page == "b" %}active{% endif %}">''\<close>
  by code_simp

theorem C7_conditional_class_resolved_witness:
  \<open>render_template (map_of []) doc_c7w (build_context ''/docs'') =
     Inr ''<h1>API Documentation - WasmWiz</h1><a href="/docs" class="nav active x">Docs</a><a class="">Examples</a>''\<close>
proof -
  have h1: "resolve_inheritance (map_of []) doc_c7w (build_context ''/docs'') = Inr doc_c7w"
    by code_simp
  have h2: \<open>substitute_variables (build_context ''/docs'') doc_c7w =
      fragment_doc
        [(''<h1>API Documentation - WasmWiz</h1><a href="/docs" '', ''nav '', ''docs'', '' x''),
         (''>Docs</a><a '', [], ''examples'', [])]
        ''>Examples</a>''\<close> by code_simp
  have h3: \<open>list_all fragment_ok
      [(''<h1>API Documentation - WasmWiz</h1><a href="/docs" '', ''nav '', ''docs'', '' x''),
       (''>Docs</a><a '', [], ''examples'', [])]\<close>
    by code_simp
  have h4: "\<not> opens_directive ''>Examples</a>''" by code_simp
  have e: \<open>fragment_doc_resolved (ctx_get (build_context ''/docs'') ''active_page'' [])
      [(''<h1>API Documentation - WasmWiz</h1><a href="/docs" '', ''nav '', ''docs'', '' x''),
       (''>Docs</a><a '', [], ''examples'', [])]
      ''>Examples</a>'' =
      ''<h1>API Documentation - WasmWiz</h1><a href="/docs" class="nav active x">Docs</a><a class="">Examples</a>''\<close>
    by code_simp
  show ?thesis
    using C7_conditional_class_resolved [of "map_of []" doc_c7w "build_context ''/docs''" doc_c7w,
        OF h1 h2 h3 h4]
    unfolding e .
qed

subsection \<open>C8: placeholders of absent keys\<close>




subsection \<open>C9: the fixed literal that selects inheritance\<close>

text \<open>
  C9. A document that holds the literal \<^verbatim>\<open>{% extends "base.html" %}\<close> anywhere in its
  text, with any text before and after it, is composed with the file base.html when that
  file exists: the rendered output is the content splice and the title splice of the
  document into the text of base.html, followed by variable substitution and the
  conditional class. A document that does not hold the literal is rendered on its own,
  whatever the template directory holds. In both cases the output depends on the template
  directory only through the file base.html. The state that line 111 selects is
  Inheriting exactly for the documents that hold the literal.
\<close>

theorem C9_fixed_literal_selects_inheritance:
  "(content = pre @ extends_marker @ post \<and> templates ''base.html'' = Some base_content \<longrightarrow>
      render_template templates content context =
        (case splice_content content base_content of
           Inl e \<Rightarrow> Inl e
         | Inr spliced \<Rightarrow>
             (case splice_title content context spliced of
                Inl e \<Rightarrow> Inl e
              | Inr rendered \<Rightarrow>
                  Inr (resolve_active_class (ctx_get context ''active_page'' [])
                         (substitute_variables context rendered))))) \<and>
   (\<not> (\<exists>pre post. content = pre @ extends_marker @ post) \<longrightarrow>
      render_template templates content context =
        Inr (resolve_active_class (ctx_get context ''active_page'' [])
               (substitute_variables context content))) \<and>
   (templates ''base.html'' = templates' ''base.html'' \<longrightarrow>
      render_template templates content context = render_template templates' content context) \<and>
   (composer_state_of content = Inheriting \<longleftrightarrow>
      (\<exists>pre post. content = pre @ extends_marker @ post))"
proof -
  have st: "composer_state_of content = Inheriting \<longleftrightarrow>
      (\<exists>pre post. content = pre @ extends_marker @ post)"
    by (simp add: composer_state_of_def contains_iff)
  have a: "render_template templates content context =
        (case splice_content content base_content of
           Inl e \<Rightarrow> Inl e
         | Inr spliced \<Rightarrow>
             (case splice_title content context spliced of
                Inl e \<Rightarrow> Inl e
              | Inr rendered \<Rightarrow>
                  Inr (resolve_active_class (ctx_get context ''active_page'' [])
                         (substitute_variables context rendered))))"
    if "content = pre @ extends_marker @ post" "templates ''base.html'' = Some base_content"
  proof -
    have "composer_state_of content = Inheriting" using st that(1) by blast
    then show ?thesis
      using that(2)
      by (simp add: render_template_def resolve_inheritance_def split: sum.splits)
  qed
  have b: "render_template templates content context =
        Inr (resolve_active_class (ctx_get context ''active_page'' [])
               (substitute_variables context content))"
    if "\<not> (\<exists>pre post. content = pre @ extends_marker @ post)"
  proof -
    have "composer_state_of content = Standalone"
      using st that by (cases "composer_state_of content") auto
    then show ?thesis by (simp add: render_template_def resolve_inheritance_def)
  qed
  have c: "render_template templates content context = render_template templates' content context"
    if "templates ''base.html'' = templates' ''base.html''"
    using that
    by (cases "composer_state_of content") (simp_all add: render_template_def resolve_inheritance_def)
  from a b c st show ?thesis by blast
qed

theorem C9_fixed_literal_selects_inheritance_witness:
  \<open>render_template (map_of [(''other.html'', ''OTHER''), (''base.html'', base_c2)]) child_c9 [] =
     Inr ''<body>x</body>'' \<and>
   render_template (map_of [(''base.html'', base_c2)]) child_c9 [] = Inr ''<body>x</body>'' \<and>
   render_template (map_of [(''other.html'', ''OTHER''), (''base.html'', base_c2)])
     ''{% extends "other.html" %}'' [] = Inr ''{% extends "other.html" %}''\<close>
proof -
  have h1: "map_of [(''other.html'', ''OTHER''), (''base.html'', base_c2)] ''base.html'' =
            Some base_c2" by simp
  have h2: \<open>child_c9 = ''<pre>usage: '' @ extends_marker @ ''</pre>{% block content %}x{% endblock %}''\<close>
    by code_simp
  have h3: "map_of [(''other.html'', ''OTHER''), (''base.html'', base_c2)] ''base.html'' =
            map_of [(''base.html'', base_c2)] ''base.html''" by simp
  have h4: \<open>composer_state_of ''{% extends "other.html" %}'' \<noteq> Inheriting\<close> by code_simp
  have e1: "(case splice_content child_c9 base_c2 of
           Inl e \<Rightarrow> Inl e
         | Inr spliced \<Rightarrow>
             (case splice_title child_c9 [] spliced of
                Inl e \<Rightarrow> Inl e
              | Inr rendered \<Rightarrow>
                  Inr (resolve_active_class (ctx_get [] ''active_page'' [])
                         (substitute_variables [] rendered)))) = Inr ''<body>x</body>''"
    by code_simp
  have e2: \<open>resolve_active_class (ctx_get [] ''active_page'' [])
               (substitute_variables [] ''{% extends "other.html" %}'') =
            ''{% extends "other.html" %}''\<close> by code_simp
  have r1: "render_template (map_of [(''other.html'', ''OTHER''), (''base.html'', base_c2)])
      child_c9 [] = Inr ''<body>x</body>''"
    using C9_fixed_literal_selects_inheritance [of child_c9 "''<pre>usage: ''"
        "''</pre>{% block content %}x{% endblock %}''"
        "map_of [(''other.html'', ''OTHER''), (''base.html'', base_c2)]" base_c2 "[]"] h1 h2 e1
    by simp
  have r2: "render_template (map_of [(''other.html'', ''OTHER''), (''base.html'', base_c2)])
      child_c9 [] = render_template (map_of [(''base.html'', base_c2)]) child_c9 []"
    using C9_fixed_literal_selects_inheritance [of child_c9 _ _
        "map_of [(''other.html'', ''OTHER''), (''base.html'', base_c2)]" _ "[]"
        "map_of [(''base.html'', base_c2)]"] h3
    by blast
  have r3: \<open>render_template (map_of [(''other.html'', ''OTHER''), (''base.html'', base_c2)])
     ''{% extends "other.html" %}'' [] = Inr ''{% extends "other.html" %}''\<close>
    using C9_fixed_literal_selects_inheritance [of \<open>''{% extends "other.html" %}''\<close> _ _
        "map_of [(''other.html'', ''OTHER''), (''base.html'', base_c2)]" _ "[]"] h4 e2
    by simp
  show ?thesis using r1 r2 r3 by simp
qed

subsection \<open>C10: the hard-coded title\<close>



end
